theory Spec2Isabelle
  imports Main "HOL-Library.AList"
begin

section \<open>The browser-automation provider\<close>

text \<open>
  \<^verbatim>\<open>app/scraper.py\<close> drives a Playwright page. Every provider call may change the
  page, and every provider call may raise. A call is therefore a function from the
  provider's state (the world \<open>'w\<close>) to a result, an exception or a value, and the next
  world. The provider itself is a record of such calls; nothing is assumed about them,
  so one and the same call may succeed now and fail later.
\<close>

datatype exn = TimeoutError | PlaywrightError | RuntimeError string

type_synonym ('w, 'a) io = "'w \<Rightarrow> (exn + 'a) \<times> 'w"

definition io_ret :: "'a \<Rightarrow> ('w, 'a) io" where
  "io_ret a w = (Inr a, w)"

definition io_raise :: "exn \<Rightarrow> ('w, 'a) io" where
  "io_raise e w = (Inl e, w)"

definition io_bind :: "('w, 'a) io \<Rightarrow> ('a \<Rightarrow> ('w, 'b) io) \<Rightarrow> ('w, 'b) io" where
  "io_bind m f w = (case m w of (Inl e, w') \<Rightarrow> (Inl e, w') | (Inr a, w') \<Rightarrow> f a w')"

text \<open>\<^verbatim>\<open>try: m  except Exception: h\<close>\<close>

definition io_try :: "('w, 'a) io \<Rightarrow> (exn \<Rightarrow> ('w, 'a) io) \<Rightarrow> ('w, 'a) io" where
  "io_try m h w = (case m w of (Inl e, w') \<Rightarrow> h e w' | (Inr a, w') \<Rightarrow> (Inr a, w'))"

text \<open>
  \<^verbatim>\<open>try: m  except Exception: h\<close> followed by \<open>k\<close>, where the handler \<open>h\<close> leaves the
  enclosing block (\<^verbatim>\<open>continue\<close>, \<^verbatim>\<open>return\<close>): \<open>k\<close> runs only after a normal end of \<open>m\<close>.
\<close>

definition io_try_else ::
  "('w, 'a) io \<Rightarrow> (exn \<Rightarrow> ('w, 'b) io) \<Rightarrow> ('a \<Rightarrow> ('w, 'b) io) \<Rightarrow> ('w, 'b) io" where
  "io_try_else m h k w = (case m w of (Inl e, w') \<Rightarrow> h e w' | (Inr a, w') \<Rightarrow> k a w')"

text \<open>A list comprehension whose element expression calls the provider, left to right.\<close>

fun io_mapM :: "('a \<Rightarrow> ('w, 'b) io) \<Rightarrow> 'a list \<Rightarrow> ('w, 'b list) io" where
  "io_mapM f [] = io_ret []"
| "io_mapM f (x # xs) = io_bind (f x) (\<lambda>y. io_bind (io_mapM f xs) (\<lambda>ys. io_ret (y # ys)))"

text \<open>\<open>no_raise m\<close>: from every state of the provider, \<open>m\<close> ends with a value.\<close>

definition no_raise :: "('w, 'a) io \<Rightarrow> bool" where
  "no_raise m = (\<forall>w. \<exists>a. fst (m w) = Inr a)"

text \<open>
  Locators are built without talking to the browser (\<^verbatim>\<open>page.locator\<close>,
  \<^verbatim>\<open>page.get_by_role\<close>, \<^verbatim>\<open>.nth\<close>, \<^verbatim>\<open>.first\<close>, \<^verbatim>\<open>.locator\<close>); only the calls
  made on them do.
\<close>

datatype locator =
    Css string
  | ByRole string "string option"
  | Nth locator nat
  | First locator
  | Sub locator string

datatype jshandle = JSHandle nat

record 'w provider =
  launch :: "('w, unit) io"
  shutdown :: "('w, unit) io"
  new_page :: "('w, unit) io"
  goto :: "string \<Rightarrow> ('w, unit) io"
  count :: "locator \<Rightarrow> ('w, nat) io"
  inner_text :: "locator \<Rightarrow> ('w, string) io"
  click :: "locator \<Rightarrow> nat option \<Rightarrow> ('w, unit) io"
  fill :: "locator \<Rightarrow> string \<Rightarrow> ('w, unit) io"
  press :: "string \<Rightarrow> ('w, unit) io"
  wait_for_selector :: "string \<Rightarrow> nat \<Rightarrow> ('w, unit) io"
  nav_expect :: "nat \<Rightarrow> ('w, unit) io"
  nav_wait :: "('w, unit) io"
  go_back :: "('w, unit) io"
  evaluate_handle :: "locator \<Rightarrow> string \<Rightarrow> ('w, jshandle option) io"
  evaluate :: "jshandle \<Rightarrow> string \<Rightarrow> ('w, string option) io"

text \<open>
  \<open>launch\<close> is \<^verbatim>\<open>launch_browser\<close> up to its \<^verbatim>\<open>yield\<close> (start Playwright, launch
  Chromium, create the context, install the route); \<open>shutdown\<close> is what it runs when the
  \<^verbatim>\<open>with\<close> block is left (\<^verbatim>\<open>context.close()\<close>, \<^verbatim>\<open>browser.close()\<close>, stop
  Playwright). \<open>new_page\<close> is \<^verbatim>\<open>context.new_page()\<close> with \<^verbatim>\<open>set_default_timeout\<close>.
  \<open>nav_expect\<close> enters \<^verbatim>\<open>page.expect_navigation(...)\<close> and \<open>nav_wait\<close> is the wait for
  the navigation when its block ends normally. \<open>evaluate_handle\<close> gives \<open>None\<close> for a
  result that Python treats as false. \<^verbatim>\<open>time.sleep\<close> has no effect on any value and
  is left out.
\<close>

definition SEARCH_URL :: string where
  "SEARCH_URL = ''https://bizfileonline.sos.ca.gov/search/business''"

section \<open>Text\<close>

text \<open>
  \<^verbatim>\<open>str.strip()\<close> removes white space at both ends; on the ASCII range these are the
  characters 9 to 13, 28 to 31 and the blank. \<^verbatim>\<open>str.rstrip(":")\<close> removes every
  trailing colon.
\<close>

definition is_space :: "char \<Rightarrow> bool" where
  "is_space c = (let n = (of_char c :: nat) in (9 \<le> n \<and> n \<le> 13) \<or> (28 \<le> n \<and> n \<le> 32))"

definition strip :: "string \<Rightarrow> string" where
  "strip s = rev (dropWhile is_space (rev (dropWhile is_space s)))"

definition rstrip_colon :: "string \<Rightarrow> string" where
  "rstrip_colon s = rev (dropWhile (\<lambda>c. c = CHR '':'') (rev s))"

text \<open>\<^verbatim>\<open>str(n)\<close> for a natural number: its decimal digits.\<close>

fun str_nat :: "nat \<Rightarrow> string" where
  "str_nat n =
     (if n < 10 then [char_of (48 + n)]
      else str_nat (n div 10) @ [char_of (48 + n mod 10)])"

declare str_nat.simps [simp del]

section \<open>Dictionaries\<close>

text \<open>
  A Python \<^verbatim>\<open>dict\<close> keeps its keys in insertion order; storing under a key that is
  present replaces the value and leaves the key where it is. This is
  \<^const>\<open>AList.update\<close> on an association list.
\<close>

type_synonym dict = "(string \<times> string) list"

definition dict_set :: "string \<Rightarrow> string \<Rightarrow> dict \<Rightarrow> dict" where
  "dict_set k v d = AList.update k v d"

text \<open>A dict comprehension \<^verbatim>\<open>{k: v for ...}\<close> over the pairs in order.\<close>

definition dict_of :: "(string \<times> string) list \<Rightarrow> dict" where
  "dict_of kvs = fold (\<lambda>(k, v) d. dict_set k v d) kvs []"

text \<open>\<^verbatim>\<open>{**base, **details}\<close>\<close>

definition dict_merge :: "dict \<Rightarrow> dict \<Rightarrow> dict" where
  "dict_merge base details = fold (\<lambda>(k, v) d. dict_set k v d) details base"

section \<open>Table extractor\<close>

definition safe_text :: "'w provider \<Rightarrow> locator \<Rightarrow> ('w, string) io" where
  "safe_text P el =
     io_try (io_bind (inner_text P el) (\<lambda>t. io_ret (strip t))) (\<lambda>e. io_ret '''')"

fun headers_loop :: "'w provider \<Rightarrow> string list \<Rightarrow> string list \<Rightarrow> ('w, string list) io" where
  "headers_loop P [] headers = io_ret headers"
| "headers_loop P (sel # sels) headers =
     io_bind (count P (Css sel)) (\<lambda>c.
       if c > 0 then
         io_bind (count P (Css sel)) (\<lambda>n.
         io_bind (io_mapM (\<lambda>i. io_bind (inner_text P (Nth (Css sel) i)) (\<lambda>t. io_ret (strip t)))
                    [0..<n]) (\<lambda>hs.
           if hs \<noteq> [] then io_ret hs else headers_loop P sels hs))
       else headers_loop P sels headers)"

definition extract_table_headers :: "'w provider \<Rightarrow> ('w, string list) io" where
  "extract_table_headers P =
     io_bind (headers_loop P
        [''table thead tr th'', ''table tr th'', ''[role=table] thead [role=columnheader]''] [])
       (\<lambda>headers. io_ret (filter (\<lambda>h. h \<noteq> []) headers))"

text \<open>The body of the loop over the rows of one convention, lines 82 to 92.\<close>

definition extract_tr :: "'w provider \<Rightarrow> locator \<Rightarrow> string list list \<Rightarrow> ('w, string list list) io" where
  "extract_tr P tr rows =
     io_bind (count P (Sub tr ''th'')) (\<lambda>n_th.
     io_bind (if n_th > 0 then io_bind (count P (Sub tr ''td'')) (\<lambda>n_td. io_ret (n_td = 0))
              else io_ret False) (\<lambda>header_only.
       if header_only then io_ret rows
       else
         io_bind (count P (Sub tr ''td'')) (\<lambda>c1.
           let cells = (if c1 = 0 then Sub tr ''[role=cell]'' else Sub tr ''td'') in
           io_bind (count P cells) (\<lambda>c2.
             if c2 = 0 then io_ret rows
             else
               io_bind (count P cells) (\<lambda>c3.
               io_bind (io_mapM (\<lambda>j. safe_text P (Nth cells j)) [0..<c3]) (\<lambda>row.
                 if list_ex (\<lambda>c. strip c \<noteq> []) row then io_ret (rows @ [row])
                 else io_ret rows))))))"

fun trs_loop :: "'w provider \<Rightarrow> locator \<Rightarrow> nat list \<Rightarrow> string list list \<Rightarrow> ('w, string list list) io" where
  "trs_loop P trs [] rows = io_ret rows"
| "trs_loop P trs (i # is) rows =
     io_bind (extract_tr P (Nth trs i) rows) (\<lambda>rows'. trs_loop P trs is rows')"

fun rows_sels_loop :: "'w provider \<Rightarrow> string list \<Rightarrow> string list list \<Rightarrow> ('w, string list list) io" where
  "rows_sels_loop P [] rows = io_ret rows"
| "rows_sels_loop P (sel # sels) rows =
     io_bind (count P (Css sel)) (\<lambda>c.
       if c = 0 then rows_sels_loop P sels rows
       else
         io_bind (count P (Css sel)) (\<lambda>n.
         io_bind (trs_loop P (Css sel) [0..<n] rows) (\<lambda>rows'.
           if rows' \<noteq> [] then io_ret rows' else rows_sels_loop P sels rows')))"

definition extract_table_rows :: "'w provider \<Rightarrow> ('w, string list list) io" where
  "extract_table_rows P =
     rows_sels_loop P [''table tbody tr'', ''table tr'', ''[role=rowgroup] [role=row]''] []"

section \<open>Navigation controller\<close>

text \<open>
  \<^verbatim>\<open>_click_search\<close>: three ways to fill the term, each tried only while nothing has
  been filled, then three buttons to click, then the Enter key. It returns nothing.
\<close>

fun click_buttons :: "'w provider \<Rightarrow> locator list \<Rightarrow> ('w, bool) io" where
  "click_buttons P [] = io_ret False"
| "click_buttons P (btn # btns) =
     io_try_else (click P btn (Some 2000)) (\<lambda>e. click_buttons P btns) (\<lambda>_. io_ret True)"

definition click_search :: "'w provider \<Rightarrow> string \<Rightarrow> ('w, unit) io" where
  "click_search P term =
     io_bind (count P (Css ''input[placeholder*='Search' i]'')) (\<lambda>n.
     io_bind (if n > 0
              then io_try (io_bind (fill P (First (Css ''input[placeholder*='Search' i]'')) term)
                             (\<lambda>_. io_ret True))
                     (\<lambda>e. io_ret False)
              else io_ret False) (\<lambda>filled.
     io_bind (if \<not> filled
              then io_try (io_bind (fill P (First (ByRole ''textbox'' None)) term)
                             (\<lambda>_. io_ret True))
                     (\<lambda>e. io_ret filled)
              else io_ret filled) (\<lambda>filled.
     io_bind (if \<not> filled
              then io_try (io_bind (fill P (First (Css ''input[type=text]'')) term)
                             (\<lambda>_. io_ret True))
                     (\<lambda>e. io_ret filled)
              else io_ret filled) (\<lambda>filled.
     io_bind (click_buttons P
                [First (ByRole ''button'' (Some ''search|find|submit'')),
                 First (Css ''button:has-text('Search')''),
                 First (Css ''input[type=submit]'')]) (\<lambda>clicked.
       if \<not> clicked then io_try (press P ''Enter'') (\<lambda>e. io_ret ())
       else io_ret ())))))"

text \<open>\<^verbatim>\<open>_open_row_detail\<close>; \<open>row_idx\<close> comes from \<^verbatim>\<open>enumerate\<close> and is never negative.\<close>

fun open_row_sels :: "'w provider \<Rightarrow> nat \<Rightarrow> string list \<Rightarrow> ('w, bool) io" where
  "open_row_sels P row_idx [] = io_ret False"
| "open_row_sels P row_idx (sel # sels) =
     io_bind (count P (Css sel)) (\<lambda>c.
       if c = 0 then open_row_sels P row_idx sels
       else
         io_bind (count P (Css sel)) (\<lambda>n.
           if row_idx \<ge> n then io_ret False
           else
             let row = Nth (Css sel) row_idx;
                 link = First (Sub row ''a'')
             in io_try
                  (io_bind (count P link) (\<lambda>n_link.
                   io_bind (if n_link > 0 then click P link (Some 4000)
                            else click P row (Some 4000)) (\<lambda>_. io_ret True)))
                  (\<lambda>e. io_ret False)))"

definition open_row_detail :: "'w provider \<Rightarrow> nat \<Rightarrow> ('w, bool) io" where
  "open_row_detail P row_idx =
     open_row_sels P row_idx [''table tbody tr'', ''table tr'', ''[role=rowgroup] [role=row]'']"

text \<open>
  \<^verbatim>\<open>_click_next\<close>. Line 212 only builds a locator; the one provider call of the last
  \<^verbatim>\<open>try\<close> is the key press.
\<close>

fun next_sels :: "'w provider \<Rightarrow> string list \<Rightarrow> ('w, bool) io" where
  "next_sels P [] = io_bind (io_try (press P ''PageDown'') (\<lambda>e. io_ret ())) (\<lambda>_. io_ret False)"
| "next_sels P (selector # selectors) =
     io_bind (count P (Css selector)) (\<lambda>n.
       if n > 0 then
         io_try_else (click P (First (Css selector)) (Some 2000))
           (\<lambda>e. next_sels P selectors) (\<lambda>_. io_ret True)
       else next_sels P selectors)"

definition click_next :: "'w provider \<Rightarrow> ('w, bool) io" where
  "click_next P =
     next_sels P
       [''a[aria-label='Next']'', ''button[aria-label='Next']'', ''a:has-text('Next')'',
        ''button:has-text('Next')'', ''li.next a'', ''[data-testid='pagination-next']'']"

section \<open>Detail collector\<close>

text \<open>
  \<^verbatim>\<open>_collect_detail_fields\<close> is three blocks over the one dictionary \<^verbatim>\<open>data\<close>; the
  second and the third are guarded by \<^verbatim>\<open>if not data\<close>.
\<close>

fun dt_loop :: "'w provider \<Rightarrow> nat list \<Rightarrow> dict \<Rightarrow> ('w, dict) io" where
  "dt_loop P [] data = io_ret data"
| "dt_loop P (i # is) data =
     io_bind (inner_text P (Nth (Css ''dt'') i)) (\<lambda>t.
     io_bind (inner_text P (Nth (Css ''dd'') i)) (\<lambda>u.
       let key = rstrip_colon (strip t); val = strip u
       in dt_loop P is (if key \<noteq> [] then dict_set key val data else data)))"

definition dt_dd_block :: "'w provider \<Rightarrow> dict \<Rightarrow> ('w, dict) io" where
  "dt_dd_block P data =
     io_bind (count P (Css ''dt'')) (\<lambda>n1.
     io_bind (if n1 > 0
              then io_bind (count P (Css ''dd'')) (\<lambda>m.
                   io_bind (count P (Css ''dt'')) (\<lambda>n2. io_ret (m \<ge> n2)))
              else io_ret False) (\<lambda>paired.
       if paired then io_bind (count P (Css ''dt'')) (\<lambda>n. dt_loop P [0..<n] data)
       else io_ret data))"

fun table_loop :: "'w provider \<Rightarrow> nat list \<Rightarrow> dict \<Rightarrow> ('w, dict) io" where
  "table_loop P [] data = io_ret data"
| "table_loop P (i # is) data =
     (let cells = Sub (Nth (Css ''table tr'') i) ''td,th'' in
      io_bind (count P cells) (\<lambda>n.
        if n \<ge> 2 then
          io_bind (inner_text P (Nth cells 0)) (\<lambda>t.
          io_bind (inner_text P (Nth cells 1)) (\<lambda>u.
            let k = rstrip_colon (strip t); v = strip u
            in table_loop P is (if k \<noteq> [] \<and> v \<noteq> [] then dict_set k v data else data)))
        else table_loop P is data))"

definition table_block :: "'w provider \<Rightarrow> dict \<Rightarrow> ('w, dict) io" where
  "table_block P data = io_bind (count P (Css ''table tr'')) (\<lambda>n. table_loop P [0..<n] data)"

fun label_loop :: "'w provider \<Rightarrow> nat list \<Rightarrow> dict \<Rightarrow> ('w, dict) io" where
  "label_loop P [] data = io_ret data"
| "label_loop P (i # is) data =
     io_bind
       (io_try
          (io_bind (inner_text P (Nth (Css ''label'') i)) (\<lambda>t.
           let k = rstrip_colon (strip t) in
           io_bind (evaluate_handle P (Nth (Css ''label'') i) ''e => e.nextElementSibling'')
             (\<lambda>sib.
               case sib of
                 None \<Rightarrow> io_ret data
               | Some h \<Rightarrow>
                   io_bind (evaluate P h ''e => e.innerText'') (\<lambda>r.
                     let v = strip (case r of None \<Rightarrow> [] | Some s \<Rightarrow> s)
                     in io_ret (if k \<noteq> [] \<and> v \<noteq> [] then dict_set k v data else data)))))
          (\<lambda>e. io_ret data))
       (\<lambda>data'. label_loop P is data')"

definition label_block :: "'w provider \<Rightarrow> dict \<Rightarrow> ('w, dict) io" where
  "label_block P data =
     io_bind (count P (Css ''label'')) (\<lambda>n. label_loop P [0..<min n 50] data)"

definition collect_detail_fields :: "'w provider \<Rightarrow> ('w, dict) io" where
  "collect_detail_fields P =
     io_bind (dt_dd_block P []) (\<lambda>data.
     io_bind (if data = [] then table_block P data else io_ret data) (\<lambda>data.
     io_bind (if data = [] then label_block P data else io_ret data) (\<lambda>data.
       io_ret data)))"

section \<open>Scrape orchestrator\<close>

text \<open>Lines 251 to 254: the dictionary of one row.\<close>

definition base_record :: "string list \<Rightarrow> string list \<Rightarrow> dict" where
  "base_record table_headers r =
     (if table_headers \<noteq> [] \<and> length r = length table_headers
      then dict_of (map (\<lambda>i. (table_headers ! i, r ! i)) [0..<length r])
      else dict_of (map (\<lambda>i. (''col_'' @ str_nat (i + 1), r ! i)) [0..<length r]))"

definition enumerate_list :: "'a list \<Rightarrow> (nat \<times> 'a) list" where
  "enumerate_list xs = zip [0..<length xs] xs"

text \<open>
  Lines 260 to 263, the body of the first \<^verbatim>\<open>try\<close> of a row: the click runs inside
  \<^verbatim>\<open>page.expect_navigation\<close>, whose wait happens only when the block ends normally.
\<close>

definition detail_open :: "'w provider \<Rightarrow> nat \<Rightarrow> ('w, unit) io" where
  "detail_open P idx_on_page =
     io_bind (nav_expect P 12000) (\<lambda>_.
     io_bind (io_bind (open_row_detail P idx_on_page) (\<lambda>opened.
                if \<not> opened then io_raise (RuntimeError ''Could not open detail row'')
                else io_ret ())) (\<lambda>_.
       nav_wait P))"

text \<open>Lines 277 and 278.\<close>

definition return_to_list :: "'w provider \<Rightarrow> ('w, unit) io" where
  "return_to_list P = io_bind (go_back P) (\<lambda>_. wait_for_selector P ''table'' 10000)"

text \<open>Lines 281 to 286.\<close>

fun replay_next :: "'w provider \<Rightarrow> nat \<Rightarrow> ('w, unit) io" where
  "replay_next P 0 = io_ret ()"
| "replay_next P (Suc n) =
     io_bind (click_next P) (\<lambda>_.
     io_bind (wait_for_selector P ''table'' 8000) (\<lambda>_. replay_next P n))"

definition resync :: "'w provider \<Rightarrow> string \<Rightarrow> int \<Rightarrow> ('w, unit) io" where
  "resync P term page_index =
     io_bind (goto P SEARCH_URL) (\<lambda>_.
     io_bind (click_search P term) (\<lambda>_.
     io_bind (wait_for_selector P ''table'' 10000) (\<lambda>_.
       replay_next P (nat (max 0 (page_index - 1))))))"

text \<open>
  The loop over the rows of a page works on \<^verbatim>\<open>results\<close> and \<^verbatim>\<open>fetched\<close>. It is left
  at the end of the page or by \<^verbatim>\<open>break\<close> (\<open>Continue\<close>: the function goes on at line
  289), or by the \<^verbatim>\<open>return\<close> of line 288 (\<open>Returned\<close>).
\<close>

datatype 'a loop_exit = Continue 'a | Returned 'a

fun exit_state :: "'a loop_exit \<Rightarrow> 'a" where
  "exit_state (Continue s) = s"
| "exit_state (Returned s) = s"

text \<open>Lines 259 to 288: one row, once \<^verbatim>\<open>fetched < max_records\<close> has been checked.\<close>

definition row_step ::
  "'w provider \<Rightarrow> string \<Rightarrow> int \<Rightarrow> nat \<Rightarrow> dict \<Rightarrow> dict list \<times> int \<Rightarrow>
     ('w, (dict list \<times> int) loop_exit) io" where
  "row_step P term page_index idx_on_page base st =
     (case st of (results, fetched) \<Rightarrow>
        io_try_else (detail_open P idx_on_page)
          (\<lambda>e. io_ret (Continue (results @ [base], fetched + 1)))
          (\<lambda>_. io_bind (io_try (collect_detail_fields P) (\<lambda>e. io_ret [])) (\<lambda>details.
             let merged = dict_merge base details;
                 results' = results @ [merged];
                 fetched' = fetched + 1
             in io_try_else (return_to_list P)
                  (\<lambda>e. io_try_else (resync P term page_index)
                          (\<lambda>e. io_ret (Returned (results', fetched')))
                          (\<lambda>_. io_ret (Continue (results', fetched'))))
                  (\<lambda>_. io_ret (Continue (results', fetched'))))))"

fun rows_loop ::
  "'w provider \<Rightarrow> string \<Rightarrow> int \<Rightarrow> int \<Rightarrow> (nat \<times> dict) list \<Rightarrow> dict list \<times> int \<Rightarrow>
     ('w, (dict list \<times> int) loop_exit) io" where
  "rows_loop P term max_records page_index [] st = io_ret (Continue st)"
| "rows_loop P term max_records page_index ((idx_on_page, base) # rest) st =
     (if snd st \<ge> max_records then io_ret (Continue st)
      else io_bind (row_step P term page_index idx_on_page base st) (\<lambda>r.
             case r of
               Continue st' \<Rightarrow> rows_loop P term max_records page_index rest st'
             | Returned st' \<Rightarrow> io_ret (Returned st')))"

text \<open>Lines 236 to 242; the parameter counts the attempts left.\<close>

fun header_attempts :: "'w provider \<Rightarrow> nat \<Rightarrow> ('w, string list) io" where
  "header_attempts P 0 = io_ret []"
| "header_attempts P (Suc n) =
     io_try (io_bind (wait_for_selector P ''table'' 8000) (\<lambda>_. extract_table_headers P))
       (\<lambda>e. header_attempts P n)"

fun consent_loop :: "'w provider \<Rightarrow> string list \<Rightarrow> ('w, unit) io" where
  "consent_loop P [] = io_ret ()"
| "consent_loop P (sel # sels) =
     io_bind (io_try (click P (First (Css sel)) (Some 1500)) (\<lambda>e. io_ret ()))
       (\<lambda>_. consent_loop P sels)"

text \<open>
  The \<^verbatim>\<open>while True\<close> loop of lines 245 to 295 works on \<^verbatim>\<open>results\<close>,
  \<^verbatim>\<open>fetched\<close> and \<^verbatim>\<open>page_index\<close> and gives their values when it is left. It ends
  because every page that is not the last one raises \<^verbatim>\<open>fetched\<close>, which the three
  facts below establish first.
\<close>

lemma row_step_state:
  "row_step P term page_index idx base st w = (Inr r, w') \<Longrightarrow>
     \<exists>rec. exit_state r = (fst st @ [rec], snd st + 1)"
  by (auto simp: row_step_def io_try_else_def io_bind_def io_try_def io_ret_def Let_def
      split: prod.splits sum.splits)

lemma rows_loop_fetched_mono:
  "rows_loop P term max_records page_index rows st w = (Inr r, w') \<Longrightarrow>
     snd st \<le> snd (exit_state r)"
proof (induction rows arbitrary: st w)
  case Nil
  then show ?case by (auto simp: io_ret_def)
next
  case (Cons a rows)
  obtain idx base where a: "a = (idx, base)" by (cases a)
  show ?case
  proof (cases "snd st \<ge> max_records")
    case True
    with Cons.prems a show ?thesis by (auto simp: io_ret_def)
  next
    case False
    with Cons.prems a obtain r1 w1 where
      s: "row_step P term page_index idx base st w = (Inr r1, w1)" and
      k: "(case r1 of Continue st' \<Rightarrow> rows_loop P term max_records page_index rows st'
           | Returned st' \<Rightarrow> io_ret (Returned st')) w1 = (Inr r, w')"
      by (auto simp: io_bind_def split: prod.splits sum.splits)
    from row_step_state [OF s] have e: "snd (exit_state r1) = snd st + 1" by auto
    show ?thesis
    proof (cases r1)
      case (Continue st')
      with k have "rows_loop P term max_records page_index rows st' w1 = (Inr r, w')" by simp
      from Cons.IH [OF this] e Continue show ?thesis by simp
    next
      case (Returned st')
      with k e show ?thesis by (auto simp: io_ret_def)
    qed
  qed
qed

lemma rows_loop_progress:
  "rows_loop P term max_records page_index (a # rows) st w = (Inr r, w') \<Longrightarrow>
     snd st < max_records \<Longrightarrow> snd st < snd (exit_state r)"
proof -
  assume p: "rows_loop P term max_records page_index (a # rows) st w = (Inr r, w')"
    and lt: "snd st < max_records"
  obtain idx base where a: "a = (idx, base)" by (cases a)
  from p a lt obtain r1 w1 where
      s: "row_step P term page_index idx base st w = (Inr r1, w1)" and
      k: "(case r1 of Continue st' \<Rightarrow> rows_loop P term max_records page_index rows st'
           | Returned st' \<Rightarrow> io_ret (Returned st')) w1 = (Inr r, w')"
    by (auto simp: io_bind_def split: prod.splits sum.splits)
  from row_step_state [OF s] have e: "snd (exit_state r1) = snd st + 1" by auto
  show ?thesis
  proof (cases r1)
    case (Continue st')
    with k have "rows_loop P term max_records page_index rows st' w1 = (Inr r, w')" by simp
    from rows_loop_fetched_mono [OF this] e Continue show ?thesis by simp
  next
    case (Returned st')
    with k e show ?thesis by (auto simp: io_ret_def)
  qed
qed

lemma rows_loop_below_cap:
  assumes "rows_loop P term max_records page_index rows st w = (Inr r, w')"
    and "rows \<noteq> []" and "snd (exit_state r) < max_records"
  shows "snd st < snd (exit_state r)"
proof (cases "snd st < max_records")
  case True
  from assms(2) obtain a rest where "rows = a # rest" by (cases rows) auto
  with assms(1) have "rows_loop P term max_records page_index (a # rest) st w = (Inr r, w')"
    by simp
  from rows_loop_progress [OF this True] show ?thesis .
next
  case False
  from assms(2) obtain a rest where "rows = a # rest" by (cases rows) auto
  with assms(1) False have "r = Continue st" by (cases a) (auto simp: io_ret_def)
  with assms(3) False show ?thesis by simp
qed

lemma enumerate_list_Nil: "enumerate_list xs = [] \<longleftrightarrow> xs = []"
  by (cases xs) (simp_all add: enumerate_list_def upt_rec)

function pages_loop ::
  "'w provider \<Rightarrow> string \<Rightarrow> int \<Rightarrow> string list \<Rightarrow> dict list \<times> int \<times> int \<Rightarrow>
     ('w, dict list \<times> int \<times> int) io" where
  "pages_loop P term max_records table_headers s w =
     (case s of (results, fetched, page_index) \<Rightarrow>
      (case extract_table_rows P w of
         (Inl e, w1) \<Rightarrow> (Inl e, w1)
       | (Inr rows_2d, w1) \<Rightarrow>
           if rows_2d = [] then (Inr (results, fetched, page_index), w1)
           else
             let page_dicts = map (base_record table_headers) rows_2d in
             (case rows_loop P term max_records page_index (enumerate_list page_dicts)
                     (results, fetched) w1 of
                (Inl e, w2) \<Rightarrow> (Inl e, w2)
              | (Inr (Returned (results', fetched')), w2) \<Rightarrow>
                  (Inr (results', fetched', page_index), w2)
              | (Inr (Continue (results', fetched')), w2) \<Rightarrow>
                  if fetched' \<ge> max_records then (Inr (results', fetched', page_index), w2)
                  else
                    (case click_next P w2 of
                       (Inl e, w3) \<Rightarrow> (Inl e, w3)
                     | (Inr moved, w3) \<Rightarrow>
                         if \<not> moved then (Inr (results', fetched', page_index), w3)
                         else pages_loop P term max_records table_headers
                                (results', fetched', page_index + 1) w3))))"
  by pat_completeness auto
termination
proof (relation "measure (\<lambda>(P, term, max_records, table_headers, s, w). nat (max_records - fst (snd s)))", goal_cases)
  case 1
  show ?case by simp
next
  case (2 P "term" max_records table_headers s w x y xa ya xb yb b xba xbb yc ba x1 xc yd xd ye bb)
  have x1: "x1 = (xc, yd)" and s: "s = (x, xa, ya)"
    using 2 by auto
  have r: "rows_loop P term max_records ya
          (enumerate_list (map (base_record table_headers) b)) (x, xa) yb = (Inr (Continue x1), yc)"
    using 2 by simp
  have ne: "enumerate_list (map (base_record table_headers) b) \<noteq> []"
    using 2 by (simp add: enumerate_list_Nil)
  have lt: "snd (exit_state (Continue x1)) < max_records"
    using x1 \<open>\<not> max_records \<le> yd\<close> by simp
  from rows_loop_below_cap [OF r ne lt] x1 have "xa < yd" by simp
  with s \<open>\<not> max_records \<le> yd\<close> show ?case by simp
qed

declare pages_loop.simps [simp del]



text \<open>Lines 222 to 296, inside the \<^verbatim>\<open>with\<close> block.\<close>

definition scrape_body ::
  "'w provider \<Rightarrow> string \<Rightarrow> int \<Rightarrow> ('w, dict list \<times> string list) io" where
  "scrape_body P term max_records =
     io_bind (new_page P) (\<lambda>_.
     io_bind (goto P SEARCH_URL) (\<lambda>_.
     io_bind (consent_loop P
                [''button:has-text('Accept')'', ''button:has-text('I Agree')'',
                 ''text=Accept All'']) (\<lambda>_.
     io_bind (click_search P term) (\<lambda>_.
     io_bind (header_attempts P 3) (\<lambda>table_headers.
     io_bind (pages_loop P term max_records table_headers ([], 0, 1)) (\<lambda>s.
       io_ret (fst s, table_headers)))))))"

text \<open>
  \<^verbatim>\<open>scrape_businesses\<close>: the body runs between \<open>launch\<close> and \<open>shutdown\<close>; the
  latter runs however the body ends, and an exception of its own replaces the body's
  outcome. The parameter \<^verbatim>\<open>headless\<close> only reaches the launch.
\<close>

definition scrape_businesses ::
  "'w provider \<Rightarrow> string \<Rightarrow> int \<Rightarrow> ('w, dict list \<times> string list) io" where
  "scrape_businesses P term max_records w =
     (case launch P w of
        (Inl e, w1) \<Rightarrow> (Inl e, w1)
      | (Inr _, w1) \<Rightarrow>
          (case scrape_body P term max_records w1 of
             (r, w2) \<Rightarrow>
               (case shutdown P w2 of
                  (Inl e, w3) \<Rightarrow> (Inl e, w3)
                | (Inr _, w3) \<Rightarrow> (r, w3))))"

section \<open>Example pages\<close>

text \<open>
  Providers to run the operations on. A static provider answers every count and text
  query from two fixed tables, lets every other call succeed, and keeps the list of the
  locators that were clicked as its state.
\<close>

definition static_provider :: "(locator \<Rightarrow> nat) \<Rightarrow> (locator \<Rightarrow> string) \<Rightarrow> (locator list) provider" where
  "static_provider cnt txt =
     \<lparr> launch = io_ret (), shutdown = io_ret (), new_page = io_ret (),
       goto = (\<lambda>url. io_ret ()),
       count = (\<lambda>l. io_ret (cnt l)),
       inner_text = (\<lambda>l. io_ret (txt l)),
       click = (\<lambda>l t w. (Inr (), w @ [l])),
       fill = (\<lambda>l s. io_ret ()),
       press = (\<lambda>k. io_ret ()),
       wait_for_selector = (\<lambda>s t. io_ret ()),
       nav_expect = (\<lambda>t. io_ret ()),
       nav_wait = io_ret (),
       go_back = io_ret (),
       evaluate_handle = (\<lambda>l s. io_ret None),
       evaluate = (\<lambda>h s. io_ret None) \<rparr>"

text \<open>
  A result page with the header \<open>Name, Status\<close> and two body rows, the first one a
  spacer of two blank cells, the second one \<open>ACME LLC, Active\<close>, and a detail view with
  the one term \<open>Entity Number:\<close>.
\<close>

fun acme_count :: "locator \<Rightarrow> nat" where
  "acme_count (Css s) =
     (if s = ''table thead tr th'' then 2
      else if s = ''table tbody tr'' then 2
      else if s = ''dt'' then 1
      else if s = ''dd'' then 1
      else 0)"
| "acme_count (Sub (Nth (Css s) i) c) =
     (if s = ''table tbody tr'' \<and> c = ''td'' \<and> i < 2 then 2 else 0)"
| "acme_count _ = 0"

fun acme_text :: "locator \<Rightarrow> string" where
  "acme_text (Nth (Css s) i) =
     (if s = ''table thead tr th'' then (if i = 0 then ''Name'' else ''Status'')
      else if s = ''dt'' then ''Entity Number:''
      else if s = ''dd'' then '' C1234567''
      else '''')"
| "acme_text (Nth (Sub (Nth (Css s) i) c) j) =
     (if s = ''table tbody tr'' \<and> c = ''td'' \<and> i = 1
      then (if j = 0 then ''ACME LLC'' else ''Active'')
      else '''')"
| "acme_text _ = ''''"

definition acme :: "(locator list) provider" where
  "acme = static_provider acme_count acme_text"

text \<open>The same page when the navigation wait times out, and when going back fails.\<close>

definition acme_nav_timeout :: "(locator list) provider" where
  "acme_nav_timeout = acme\<lparr>nav_wait := io_raise TimeoutError\<rparr>"

definition acme_back_fails :: "(locator list) provider" where
  "acme_back_fails = acme\<lparr>go_back := io_raise TimeoutError\<rparr>"




text \<open>
  A detail view with two terms and one definition, and a table of one row
  \<open>Status: | Active\<close>.
\<close>

fun detail_table_count :: "locator \<Rightarrow> nat" where
  "detail_table_count (Css s) =
     (if s = ''dt'' then 2 else if s = ''dd'' then 1 else if s = ''table tr'' then 1 else 0)"
| "detail_table_count (Sub (Nth (Css s) i) c) =
     (if s = ''table tr'' \<and> c = ''td,th'' \<and> i = 0 then 2 else 0)"
| "detail_table_count _ = 0"

fun detail_table_text :: "locator \<Rightarrow> string" where
  "detail_table_text (Nth (Sub (Nth (Css s) i) c) j) =
     (if s = ''table tr'' \<and> c = ''td,th'' \<and> i = 0
      then (if j = 0 then ''Status:'' else '' Active '')
      else '''')"
| "detail_table_text (Nth (Css s) i) = (if s = ''dt'' then ''Ignored'' else ''unpaired'')"
| "detail_table_text _ = ''''"

definition detail_table :: "(locator list) provider" where
  "detail_table = static_provider detail_table_count detail_table_text"


section \<open>Facts about dictionaries and decimal numerals\<close>

lemma update_fresh: "k \<notin> fst ` set d \<Longrightarrow> AList.update k v d = d @ [(k, v)]"
  by (induction d) auto

lemma fold_dict_set_distinct:
  "distinct (map fst (acc @ kvs)) \<Longrightarrow> fold (\<lambda>(k, v) d. dict_set k v d) kvs acc = acc @ kvs"
proof (induction kvs arbitrary: acc)
  case Nil
  then show ?case by simp
next
  case (Cons p kvs)
  obtain k v where p: "p = (k, v)" by (cases p)
  from Cons.prems p have fresh: "k \<notin> fst ` set acc" by auto
  from Cons.prems p have "distinct (map fst ((acc @ [(k, v)]) @ kvs))" by auto
  from Cons.IH [OF this] fresh p show ?case
    by (simp add: dict_set_def update_fresh)
qed

lemma dict_of_distinct: "distinct (map fst kvs) \<Longrightarrow> dict_of kvs = kvs"
  using fold_dict_set_distinct [of "[]" kvs] by (simp add: dict_of_def)

lemma map_of_dict_set: "map_of (dict_set k v d) = (map_of d)(k \<mapsto> v)"
  by (simp add: dict_set_def update_conv')

lemma keys_dict_set: "fst ` set (dict_set k v d) = insert k (fst ` set d)"
  by (simp add: dict_set_def dom_update)

lemma fold_dict_set_map_of:
  "map_of (fold (\<lambda>(k, v) d. dict_set k v d) kvs acc) = map_of acc ++ map_of (rev kvs)"
proof (induction kvs arbitrary: acc)
  case Nil
  then show ?case by simp
next
  case (Cons p kvs)
  obtain k v where p: "p = (k, v)" by (cases p)
  show ?case
    by (simp add: p Cons.IH map_of_dict_set map_add_def fun_eq_iff map_of_append
        split: option.splits)
qed

lemma fold_dict_set_keys:
  "fst ` set (fold (\<lambda>(k, v) d. dict_set k v d) kvs acc) = fst ` set acc \<union> fst ` set kvs"
proof (induction kvs arbitrary: acc)
  case Nil
  then show ?case by simp
next
  case (Cons p kvs)
  obtain k v where p: "p = (k, v)" by (cases p)
  show ?case
    by (simp add: p Cons.IH keys_dict_set)
qed

lemma fold_dict_set_distinct_keys:
  "distinct (map fst acc) \<Longrightarrow> distinct (map fst (fold (\<lambda>(k, v) d. dict_set k v d) kvs acc))"
proof (induction kvs arbitrary: acc)
  case Nil
  then show ?case by simp
next
  case (Cons p kvs)
  obtain k v where p: "p = (k, v)" by (cases p)
  from Cons.prems have "distinct (map fst (dict_set k v acc))"
    by (simp add: dict_set_def distinct_update)
  from Cons.IH [OF this] p show ?case by simp
qed

lemma map_of_rev_distinct: "distinct (map fst kvs) \<Longrightarrow> map_of (rev kvs) = map_of kvs"
  by (rule map_of_inject_set [THEN iffD2]) (simp_all add: rev_map [symmetric])

lemma str_nat_nonempty: "str_nat n \<noteq> []"
  by (subst str_nat.simps) simp

lemma digit_inj: "a < 10 \<Longrightarrow> b < 10 \<Longrightarrow> (char_of (48 + a) :: char) = char_of (48 + b) \<Longrightarrow> a = (b::nat)"
proof -
  assume a: "a < 10" and b: "b < 10" and e: "(char_of (48 + a) :: char) = char_of (48 + b)"
  from e have "(of_char (char_of (48 + a) :: char) :: nat) = of_char (char_of (48 + b) :: char)"
    by simp
  with a b show ?thesis by (simp add: of_char_of)
qed

lemma str_nat_inj: "str_nat n = str_nat m \<Longrightarrow> n = m"
proof (induction n arbitrary: m rule: str_nat.induct)
  case (1 n)
  show ?case
  proof (cases "n < 10")
    case True
    then have sn: "str_nat n = [char_of (48 + n)]" by (subst str_nat.simps) simp
    show ?thesis
    proof (cases "m < 10")
      case mt: True
      then have "str_nat m = [char_of (48 + m)]" by (subst str_nat.simps) simp
      with sn "1.prems" True mt show ?thesis by (auto dest: digit_inj)
    next
      case False
      then have "str_nat m = str_nat (m div 10) @ [char_of (48 + m mod 10)]"
        by (subst str_nat.simps) simp
      with sn "1.prems" str_nat_nonempty [of "m div 10"] show ?thesis by (cases "str_nat (m div 10)") auto
    qed
  next
    case False
    then have sn: "str_nat n = str_nat (n div 10) @ [char_of (48 + n mod 10)]"
      by (subst str_nat.simps) simp
    show ?thesis
    proof (cases "m < 10")
      case True
      then have "str_nat m = [char_of (48 + m)]" by (subst str_nat.simps) simp
      with sn "1.prems" str_nat_nonempty [of "n div 10"] show ?thesis by (cases "str_nat (n div 10)") auto
    next
      case mf: False
      then have "str_nat m = str_nat (m div 10) @ [char_of (48 + m mod 10)]"
        by (subst str_nat.simps) simp
      with sn "1.prems" have a: "str_nat (n div 10) = str_nat (m div 10)"
        and b: "(char_of (48 + n mod 10) :: char) = char_of (48 + m mod 10)" by auto
      from "1.IH" [OF False a] have "n div 10 = m div 10" .
      moreover from b have "n mod 10 = m mod 10" by (rule digit_inj [rotated 2]) simp_all
      ultimately show ?thesis by (metis div_mult_mod_eq)
    qed
  qed
qed

lemma col_keys_distinct: "distinct (map (\<lambda>i. ''col_'' @ str_nat (i + 1)) [0..<n])"
  by (auto simp: distinct_map inj_on_def dest: str_nat_inj)


lemma base_record_same_length:
  assumes "length R = length H" and "distinct H"
  shows "base_record H R = zip H R"
proof (cases "H = []")
  case True
  with assms show ?thesis by (simp add: base_record_def dict_of_def)
next
  case False
  from assms(1) have z: "map (\<lambda>i. (H ! i, R ! i)) [0..<length R] = zip H R"
    by (intro nth_equalityI) simp_all
  from assms have "distinct (map fst (zip H R))" by simp
  then have "dict_of (zip H R) = zip H R" by (rule dict_of_distinct)
  with False assms(1) z show ?thesis by (simp add: base_record_def)
qed

lemma base_record_other_length:
  assumes "length R \<noteq> length H"
  shows "base_record H R = zip (map (\<lambda>i. ''col_'' @ str_nat (i + 1)) [0..<length R]) R"
proof -
  have z: "map (\<lambda>i. (''col_'' @ str_nat (i + 1), R ! i)) [0..<length R] =
      zip (map (\<lambda>i. ''col_'' @ str_nat (i + 1)) [0..<length R]) R"
    by (intro nth_equalityI) simp_all
  have "map fst (map (\<lambda>i. (''col_'' @ str_nat (i + 1), R ! i)) [0..<length R]) =
      map (\<lambda>i. ''col_'' @ str_nat (i + 1)) [0..<length R]"
    by simp
  then have "distinct (map fst (map (\<lambda>i. (''col_'' @ str_nat (i + 1), R ! i)) [0..<length R]))"
    using col_keys_distinct [of "length R"] by (simp add: comp_def)
  then have "dict_of (map (\<lambda>i. (''col_'' @ str_nat (i + 1), R ! i)) [0..<length R]) =
      map (\<lambda>i. (''col_'' @ str_nat (i + 1), R ! i)) [0..<length R]"
    by (rule dict_of_distinct)
  with assms z show ?thesis by (simp add: base_record_def)
qed

section \<open>Facts about the loops of the orchestrator\<close>

lemma io_bind_InrE:
  assumes "io_bind m f w = (Inr b, w')"
  obtains a w1 where "m w = (Inr a, w1)" and "f a w1 = (Inr b, w')"
  using assms by (auto simp: io_bind_def split: prod.splits sum.splits)

lemma scrape_body_pages:
  assumes "scrape_body P term max_records w = (Inr (res, hdrs), w')"
  obtains s' v where "pages_loop P term max_records hdrs ([], 0, 1) v = (Inr s', w')"
    and "res = fst s'"
proof -
  from assms obtain hdrs' v s' v' where
    "pages_loop P term max_records hdrs' ([], 0, 1) v = (Inr s', v')"
    "io_ret (fst s', hdrs') v' = (Inr (res, hdrs), w')"
    unfolding scrape_body_def by (elim io_bind_InrE) blast
  then have "pages_loop P term max_records hdrs ([], 0, 1) v = (Inr s', w')" "res = fst s'"
    by (auto simp: io_ret_def)
  then show ?thesis by (rule that)
qed

lemma pages_loop_extract_raises:
  "extract_table_rows P w = (Inl e, w1) \<Longrightarrow>
     pages_loop P term m hdrs (results, fetched, page_index) w = (Inl e, w1)"
  by (subst pages_loop.simps) simp

lemma pages_loop_empty:
  "extract_table_rows P w = (Inr [], w1) \<Longrightarrow>
     pages_loop P term m hdrs (results, fetched, page_index) w =
       (Inr (results, fetched, page_index), w1)"
  by (subst pages_loop.simps) simp

lemma pages_loop_rows:
  "extract_table_rows P w = (Inr rows, w1) \<Longrightarrow> rows \<noteq> [] \<Longrightarrow>
     pages_loop P term m hdrs (results, fetched, page_index) w =
       (case rows_loop P term m page_index (enumerate_list (map (base_record hdrs) rows))
               (results, fetched) w1 of
          (Inl e, w2) \<Rightarrow> (Inl e, w2)
        | (Inr (Returned (res, f)), w2) \<Rightarrow> (Inr (res, f, page_index), w2)
        | (Inr (Continue (res, f)), w2) \<Rightarrow>
            if f \<ge> m then (Inr (res, f, page_index), w2)
            else
              (case click_next P w2 of
                 (Inl e, w3) \<Rightarrow> (Inl e, w3)
               | (Inr moved, w3) \<Rightarrow>
                   if \<not> moved then (Inr (res, f, page_index), w3)
                   else pages_loop P term m hdrs (res, f, page_index + 1) w3))"
  by (subst pages_loop.simps) (simp add: Let_def)

lemma pages_loop_cases:
  assumes "pages_loop P term m hdrs (results, fetched, page_index) w = (Inr s', w')"
  obtains
    (empty) "extract_table_rows P w = (Inr [], w')" "s' = (results, fetched, page_index)"
  | (returned) rows w1 res f where
      "extract_table_rows P w = (Inr rows, w1)" "rows \<noteq> []"
      "rows_loop P term m page_index (enumerate_list (map (base_record hdrs) rows))
         (results, fetched) w1 = (Inr (Returned (res, f)), w')"
      "s' = (res, f, page_index)"
  | (capped) rows w1 res f where
      "extract_table_rows P w = (Inr rows, w1)" "rows \<noteq> []"
      "rows_loop P term m page_index (enumerate_list (map (base_record hdrs) rows))
         (results, fetched) w1 = (Inr (Continue (res, f)), w')"
      "f \<ge> m" "s' = (res, f, page_index)"
  | (final) rows w1 res f w2 where
      "extract_table_rows P w = (Inr rows, w1)" "rows \<noteq> []"
      "rows_loop P term m page_index (enumerate_list (map (base_record hdrs) rows))
         (results, fetched) w1 = (Inr (Continue (res, f)), w2)"
      "f < m" "click_next P w2 = (Inr False, w')" "s' = (res, f, page_index)"
  | (advance) rows w1 res f w2 w3 where
      "extract_table_rows P w = (Inr rows, w1)" "rows \<noteq> []"
      "rows_loop P term m page_index (enumerate_list (map (base_record hdrs) rows))
         (results, fetched) w1 = (Inr (Continue (res, f)), w2)"
      "f < m" "click_next P w2 = (Inr True, w3)"
      "pages_loop P term m hdrs (res, f, page_index + 1) w3 = (Inr s', w')"
proof -
  obtain x w1 where x: "extract_table_rows P w = (x, w1)"
    by (cases "extract_table_rows P w")
  show thesis
  proof (cases x)
    case (Inl e)
    with x assms pages_loop_extract_raises [of P w e w1] show thesis by simp
  next
    case (Inr rows)
    note rows = x [unfolded Inr]
    show thesis
    proof (cases "rows = []")
      case True
      with rows assms pages_loop_empty [of P w w1] have "s' = (results, fetched, page_index)" "w' = w1"
        by simp_all
      with rows True show thesis by (intro empty) simp_all
    next
      case False
      note unf = pages_loop_rows [OF rows False, of "term" m hdrs results fetched page_index]
      obtain y w2 where y: "rows_loop P term m page_index
          (enumerate_list (map (base_record hdrs) rows)) (results, fetched) w1 = (y, w2)"
        by (cases "rows_loop P term m page_index
          (enumerate_list (map (base_record hdrs) rows)) (results, fetched) w1")
      show thesis
      proof (cases y)
        case (Inl e)
        with assms unf y show thesis by simp
      next
        case yr: (Inr r)
        show thesis
        proof (cases r)
          case (Returned st)
          obtain res f where st: "st = (res, f)" by (cases st)
          from assms unf y yr Returned st have "s' = (res, f, page_index)" "w' = w2" by simp_all
          with rows False y yr Returned st show thesis by (intro returned) simp_all
        next
          case (Continue st)
          obtain res f where st: "st = (res, f)" by (cases st)
          note yy = y [unfolded yr Continue st]
          show thesis
          proof (cases "f \<ge> m")
            case True
            with assms unf yy have "s' = (res, f, page_index)" "w' = w2" by simp_all
            with rows False yy True show thesis by (intro capped) simp_all
          next
            case lt: False
            obtain z w3 where z: "click_next P w2 = (z, w3)" by (cases "click_next P w2")
            show thesis
            proof (cases z)
              case (Inl e)
              with assms unf yy lt z show thesis by simp
            next
              case (Inr moved)
              show thesis
              proof (cases moved)
                case True
                with assms unf yy lt z Inr
                have "pages_loop P term m hdrs (res, f, page_index + 1) w3 = (Inr s', w')"
                  by simp
                with rows False yy lt z Inr True show thesis by (intro advance) simp_all
              next
                case nm: False
                with assms unf yy lt z Inr have "s' = (res, f, page_index)" "w' = w3" by simp_all
                with rows False yy lt z Inr nm show thesis by (intro final) simp_all
              qed
            qed
          qed
        qed
      qed
    qed
  qed
qed

lemma rows_loop_inv:
  "rows_loop P term m page_index rows st w = (Inr r, w') \<Longrightarrow> snd st \<le> m \<Longrightarrow>
     snd (exit_state r) \<le> m \<and>
     int (length (fst (exit_state r))) = int (length (fst st)) + (snd (exit_state r) - snd st)"
proof (induction rows arbitrary: st w)
  case Nil
  then show ?case by (auto simp: io_ret_def)
next
  case (Cons a rows)
  obtain idx base where a: "a = (idx, base)" by (cases a)
  show ?case
  proof (cases "snd st \<ge> m")
    case True
    with Cons.prems a show ?thesis by (auto simp: io_ret_def)
  next
    case False
    with Cons.prems a obtain r1 w1 where
      s: "row_step P term page_index idx base st w = (Inr r1, w1)" and
      k: "(case r1 of Continue st' \<Rightarrow> rows_loop P term m page_index rows st'
           | Returned st' \<Rightarrow> io_ret (Returned st')) w1 = (Inr r, w')"
      by (auto simp: io_bind_def split: prod.splits sum.splits)
    from row_step_state [OF s] obtain rec where
      e: "exit_state r1 = (fst st @ [rec], snd st + 1)" by auto
    show ?thesis
    proof (cases r1)
      case (Continue st')
      with k have l: "rows_loop P term m page_index rows st' w1 = (Inr r, w')" by simp
      from e Continue False have "snd st' \<le> m" by simp
      from Cons.IH [OF l this] e Continue show ?thesis by simp
    next
      case (Returned st')
      with k e False show ?thesis by (auto simp: io_ret_def)
    qed
  qed
qed

lemma pages_loop_inv:
  "pages_loop P term m hdrs s w = (Inr s', w') \<Longrightarrow> fst (snd s) \<le> m \<Longrightarrow>
     fst (snd s) \<le> fst (snd s') \<and> fst (snd s') \<le> m \<and>
     int (length (fst s')) = int (length (fst s)) + (fst (snd s') - fst (snd s))"
proof (induction "nat (m - fst (snd s))" arbitrary: s w rule: less_induct)
  case less
  obtain results fetched page_index where s: "s = (results, fetched, page_index)"
    by (cases s) auto
  from less.prems(1) s
  have p: "pages_loop P term m hdrs (results, fetched, page_index) w = (Inr s', w')" by simp
  from less.prems(2) s have le: "fetched \<le> m" by simp
  from p show ?case
  proof (cases rule: pages_loop_cases)
    case empty
    with s le show ?thesis by simp
  next
    case (returned rows w1 res f)
    from rows_loop_inv [OF returned(3)] rows_loop_fetched_mono [OF returned(3)] le returned(4) s
    show ?thesis by simp
  next
    case (capped rows w1 res f)
    from rows_loop_inv [OF capped(3)] rows_loop_fetched_mono [OF capped(3)] le capped(5) s
    show ?thesis by simp
  next
    case (final rows w1 res f w2)
    from rows_loop_inv [OF final(3)] rows_loop_fetched_mono [OF final(3)] le final(6) s
    show ?thesis by simp
  next
    case (advance rows w1 res f w2 w3)
    from advance(2) have ne: "enumerate_list (map (base_record hdrs) rows) \<noteq> []"
      by (simp add: enumerate_list_Nil)
    from rows_loop_below_cap [OF advance(3) ne] advance(4) have lt: "fetched < f" by simp
    from rows_loop_inv [OF advance(3)] le
    have len: "int (length res) = int (length results) + (f - fetched)" by simp
    from lt advance(4) s
    have "nat (m - fst (snd (res, f, page_index + 1))) < nat (m - fst (snd s))" by simp
    from less.hyps [OF this advance(6)] advance(4) lt len s show ?thesis by simp
  qed
qed

section \<open>Calls that never raise\<close>

text \<open>
  Whatever a \<^verbatim>\<open>try\<close> guards cannot raise; the count queries are the calls the source
  leaves unguarded.
\<close>

lemma no_raiseI: "(\<And>w. \<exists>a. fst (m w) = Inr a) \<Longrightarrow> no_raise m"
  by (simp add: no_raise_def)





lemma no_raise_try_else [intro!]:
  "(\<And>e. no_raise (h e)) \<Longrightarrow> (\<And>a. no_raise (k a)) \<Longrightarrow> no_raise (io_try_else m h k)"
  unfolding no_raise_def io_try_else_def by (auto split: prod.splits sum.splits)
















lemma io_ret_InrD: "io_ret a w = (Inr b, w') \<Longrightarrow> b = a \<and> w' = w"
  by (simp add: io_ret_def)

section \<open>The detail collector returns a dictionary\<close>

text \<open>No key occurs twice in what \<^verbatim>\<open>_collect_detail_fields\<close> returns.\<close>

lemma dict_set_distinct: "distinct (map fst d) \<Longrightarrow> distinct (map fst (dict_set k v d))"
  by (simp add: dict_set_def distinct_update)

lemma dt_loop_distinct:
  "dt_loop P is data w = (Inr d, w') \<Longrightarrow> distinct (map fst data) \<Longrightarrow> distinct (map fst d)"
proof (induction "is" arbitrary: data w)
  case Nil
  then show ?case by (auto dest: io_ret_InrD)
next
  case (Cons i "is")
  from Cons.prems(1) obtain t u w1 w2 where
    "dt_loop P is (if rstrip_colon (strip t) \<noteq> [] then dict_set (rstrip_colon (strip t)) (strip u) data
        else data) w2 = (Inr d, w')"
    by (auto simp: Let_def elim!: io_bind_InrE)
  from Cons.IH [OF this] Cons.prems(2) show ?case by (simp add: dict_set_distinct)
qed

lemma table_loop_distinct:
  "table_loop P is data w = (Inr d, w') \<Longrightarrow> distinct (map fst data) \<Longrightarrow> distinct (map fst d)"
proof (induction "is" arbitrary: data w)
  case Nil
  then show ?case by (auto dest: io_ret_InrD)
next
  case (Cons i "is")
  from Cons.prems have
    "\<exists>data1 w1. table_loop P is data1 w1 = (Inr d, w') \<and> distinct (map fst data1)"
    apply (auto simp: Let_def elim!: io_bind_InrE split: if_splits)
       apply (blast intro: dict_set_distinct)+
    done
  then show ?case using Cons.IH by blast
qed

lemma label_loop_distinct:
  "label_loop P is data w = (Inr d, w') \<Longrightarrow> distinct (map fst data) \<Longrightarrow> distinct (map fst d)"
proof (induction "is" arbitrary: data w)
  case Nil
  then show ?case by (auto dest: io_ret_InrD)
next
  case (Cons i "is")
  from Cons.prems have
    "\<exists>data1 w1. label_loop P is data1 w1 = (Inr d, w') \<and> distinct (map fst data1)"
    apply (auto simp: Let_def io_try_def io_bind_def io_ret_def
        split: prod.splits sum.splits option.splits if_splits)
       apply (blast intro: dict_set_distinct)+
    done
  then show ?case using Cons.IH by blast
qed

lemma collect_detail_fields_distinct:
  assumes "collect_detail_fields P w = (Inr d, w')"
  shows "distinct (map fst d)"
proof -
  from assms obtain d1 w1 x w2 y w3 where
    a: "dt_dd_block P [] w = (Inr d1, w1)" and
    b: "(if d1 = [] then table_block P d1 else io_ret d1) w1 = (Inr x, w2)" and
    c: "(if x = [] then label_block P x else io_ret x) w2 = (Inr y, w3)" and
    e: "io_ret y w3 = (Inr d, w')"
    unfolding collect_detail_fields_def by (elim io_bind_InrE) blast
  from a have d1: "distinct (map fst d1)"
    unfolding dt_dd_block_def
    by (auto elim!: io_bind_InrE dest!: io_ret_InrD dt_loop_distinct split: if_splits)
  from b d1 have x: "distinct (map fst x)"
    unfolding table_block_def
    by (auto elim!: io_bind_InrE dest!: io_ret_InrD table_loop_distinct split: if_splits)
  from c x have "distinct (map fst y)"
    unfolding label_block_def
    by (auto elim!: io_bind_InrE dest!: io_ret_InrD label_loop_distinct split: if_splits)
  with e show ?thesis by (auto dest: io_ret_InrD)
qed

section \<open>Claims\<close>

text \<open>
  C3, as amended. For a row \<open>R\<close> and a header sequence \<open>H\<close>: when the lengths agree and
  no label occurs twice in \<open>H\<close>, the keys of the base record are \<open>H\<close> in order; when the
  lengths differ, the keys are \<open>col_1\<close> to \<open>col_n\<close> in order, \<open>n\<close> the length of \<open>R\<close>;
  in both cases the record has as many entries as \<open>R\<close> has cells and its values are the
  cells of \<open>R\<close> in order.
\<close>

theorem base_record_keys:
  "(length R = length H \<and> distinct H \<longrightarrow> map fst (base_record H R) = H) \<and>
   (length R \<noteq> length H \<longrightarrow>
      map fst (base_record H R) = map (\<lambda>i. ''col_'' @ str_nat (i + 1)) [0..<length R]) \<and>
   (length R \<noteq> length H \<or> distinct H \<longrightarrow>
      length (base_record H R) = length R \<and> map snd (base_record H R) = R)"
proof (cases "length R = length H")
  case True
  then show ?thesis by (auto simp: base_record_same_length)
next
  case False
  then show ?thesis by (simp add: base_record_other_length)
qed

lemma str_nat_digits:
  "str_nat (Suc 0) = ''1''" "str_nat (Suc (Suc 0)) = ''2''" "str_nat (Suc (Suc (Suc 0))) = ''3''"
  by code_simp+

text \<open>
  C3, witness: the header \<open>Name, Status\<close> with a row of two cells, and with a row of
  three cells.
\<close>

theorem base_record_keys_witness:
  "length [''ACME LLC'', ''Active''] = length [''Name'', ''Status''] \<and>
   distinct [''Name'', ''Status''] \<and>
   map fst (base_record [''Name'', ''Status''] [''ACME LLC'', ''Active'']) = [''Name'', ''Status''] \<and>
   map snd (base_record [''Name'', ''Status''] [''ACME LLC'', ''Active'']) = [''ACME LLC'', ''Active''] \<and>
   length [''a'', ''b'', ''c''] \<noteq> length [''Name'', ''Status''] \<and>
   map fst (base_record [''Name'', ''Status''] [''a'', ''b'', ''c'']) = [''col_1'', ''col_2'', ''col_3'']"
  using base_record_keys [of "[''ACME LLC'', ''Active'']" "[''Name'', ''Status'']"]
    base_record_keys [of "[''a'', ''b'', ''c'']" "[''Name'', ''Status'']"]
  by (simp add: upt_rec str_nat_digits)

text \<open>
  C3, counterexample to the claim as stated: under a header sequence that repeats a
  label, a row of the same length gives a record with one key, the later cell's value
  having replaced the earlier one.
\<close>

theorem base_record_duplicate_headers:
  "length [''1'', ''2''] = length [''Date'', ''Date''] \<and>
   base_record [''Date'', ''Date''] [''1'', ''2''] = [(''Date'', ''2'')] \<and>
   map fst (base_record [''Date'', ''Date''] [''1'', ''2'']) \<noteq> [''Date'', ''Date''] \<and>
   length (base_record [''Date'', ''Date''] [''1'', ''2'']) \<noteq> length [''1'', ''2'']"
  by (simp add: base_record_def dict_of_def dict_set_def upt_rec)

text \<open>
  C4. For a base record \<open>B\<close> and a detail record \<open>D\<close> (a dictionary, so no key occurs
  twice; \<open>collect_detail_fields_distinct\<close> shows it of the collector), the merged
  record maps every key of \<open>D\<close> to its value in \<open>D\<close>, every other key of \<open>B\<close> to its
  value in \<open>B\<close>, and has no other key.
\<close>

theorem merge_detail_overrides:
  "distinct (map fst D) \<Longrightarrow>
     map_of (dict_merge B D) k = (case map_of D k of Some v \<Rightarrow> Some v | None \<Rightarrow> map_of B k) \<and>
     fst ` set (dict_merge B D) = fst ` set B \<union> fst ` set D"
  by (simp add: dict_merge_def fold_dict_set_map_of fold_dict_set_keys map_of_rev_distinct
      map_add_def)

text \<open>C4, witness: a detail record that shares the key \<open>Status\<close> with the base record.\<close>

theorem merge_detail_overrides_witness:
  "distinct (map fst [(''Status'', ''Suspended''), (''Entity Number'', ''C1234567'')]) \<and>
   dict_merge [(''Name'', ''ACME LLC''), (''Status'', ''Active'')]
     [(''Status'', ''Suspended''), (''Entity Number'', ''C1234567'')] =
     [(''Name'', ''ACME LLC''), (''Status'', ''Suspended''), (''Entity Number'', ''C1234567'')] \<and>
   map_of (dict_merge [(''Name'', ''ACME LLC''), (''Status'', ''Active'')]
     [(''Status'', ''Suspended''), (''Entity Number'', ''C1234567'')]) ''Status'' = Some ''Suspended''"
  using merge_detail_overrides [of "[(''Status'', ''Suspended''), (''Entity Number'', ''C1234567'')]"
      "[(''Name'', ''ACME LLC''), (''Status'', ''Active'')]" "''Status''"]
  by (simp add: dict_merge_def dict_set_def)

text \<open>
  C6. When the detail-open action of a row fails, by whatever exception (the click
  reporting failure, or the navigation wait timing out), the row's base record is
  appended as it is, \<^verbatim>\<open>fetched\<close> grows by exactly one, and the loop goes on with the
  next row of the same page.
\<close>

theorem detail_open_failure_keeps_base:
  assumes "fst (detail_open P idx w) = Inl e" and "fetched < max_records"
  shows "row_step P term page_index idx base (results, fetched) w =
           (Inr (Continue (results @ [base], fetched + 1)), snd (detail_open P idx w)) \<and>
         rows_loop P term max_records page_index ((idx, base) # rest) (results, fetched) w =
           rows_loop P term max_records page_index rest (results @ [base], fetched + 1)
             (snd (detail_open P idx w))"
proof -
  from assms(1) obtain w1 where d: "detail_open P idx w = (Inl e, w1)"
    by (cases "detail_open P idx w") auto
  then have step: "row_step P term page_index idx base (results, fetched) w =
      (Inr (Continue (results @ [base], fetched + 1)), w1)"
    by (simp add: row_step_def io_try_else_def io_ret_def)
  with assms(2) d show ?thesis by (simp add: io_bind_def)
qed

lemma acme_nav_timeout_open:
  "detail_open acme_nav_timeout 0 [] = (Inl TimeoutError, [Nth (Css ''table tbody tr'') 0])"
  by code_simp

text \<open>C6, witness: the navigation wait times out on the first row.\<close>

theorem detail_open_failure_keeps_base_witness:
  "fst (detail_open acme_nav_timeout 0 []) = Inl TimeoutError \<and> (0::int) < 1 \<and>
   row_step acme_nav_timeout ''acme'' 1 0 [(''Name'', ''ACME LLC'')] ([], 0) [] =
     (Inr (Continue ([[(''Name'', ''ACME LLC'')]], 1)), [Nth (Css ''table tbody tr'') 0]) \<and>
   rows_loop acme_nav_timeout ''acme'' 1 1 [(0, [(''Name'', ''ACME LLC'')])] ([], 0) [] =
     (Inr (Continue ([[(''Name'', ''ACME LLC'')]], 1)), [Nth (Css ''table tbody tr'') 0])"
  using detail_open_failure_keeps_base [of acme_nav_timeout 0 "[]" TimeoutError 0 1 "''acme''" 1
      "[(''Name'', ''ACME LLC'')]" "[]" "[]"]
  by (simp add: acme_nav_timeout_open io_ret_def)




lemma rows_loop_results_extend:
  "rows_loop P term max_records page_index rows st w = (Inr r, w') \<Longrightarrow>
     \<exists>more. fst (exit_state r) = fst st @ more"
proof (induction rows arbitrary: st w)
  case Nil
  then show ?case by (auto simp: io_ret_def)
next
  case (Cons a rows)
  obtain idx base where a: "a = (idx, base)" by (cases a)
  show ?case
  proof (cases "snd st \<ge> max_records")
    case True
    with Cons.prems a show ?thesis by (auto simp: io_ret_def)
  next
    case False
    with Cons.prems a obtain r1 w1 where
      s: "row_step P term page_index idx base st w = (Inr r1, w1)" and
      k: "(case r1 of Continue st' \<Rightarrow> rows_loop P term max_records page_index rows st'
           | Returned st' \<Rightarrow> io_ret (Returned st')) w1 = (Inr r, w')"
      by (auto simp: io_bind_def split: prod.splits sum.splits)
    from row_step_state [OF s] obtain rec where e: "fst (exit_state r1) = fst st @ [rec]" by auto
    show ?thesis
    proof (cases r1)
      case (Continue st')
      with k have "rows_loop P term max_records page_index rows st' w1 = (Inr r, w')" by simp
      from Cons.IH [OF this] e Continue show ?thesis by auto
    next
      case (Returned st')
      with k e show ?thesis by (auto simp: io_ret_def)
    qed
  qed
qed

text \<open>
  C10. When going back to the list fails and the resync succeeds, the loop goes on with
  the remaining base records of the list extracted before, on the state the resync left
  (the rows are not extracted again), and every record appended so far stays in place:
  the final results start with them.
\<close>

theorem resync_continues_same_page:
  assumes "fetched < max_records"
    and "detail_open P idx w = (Inr (), w1)"
    and "io_try (collect_detail_fields P) (\<lambda>e. io_ret []) w1 = (Inr details, w2)"
    and "return_to_list P w2 = (Inl e, w3)"
    and "resync P term page_index w3 = (Inr (), w4)"
  shows "rows_loop P term max_records page_index ((idx, base) # rest) (results, fetched) w =
           rows_loop P term max_records page_index rest
             (results @ [dict_merge base details], fetched + 1) w4 \<and>
         (\<forall>r w'. rows_loop P term max_records page_index ((idx, base) # rest) (results, fetched) w
                    = (Inr r, w') \<longrightarrow>
            (\<exists>more. fst (exit_state r) = results @ [dict_merge base details] @ more))"
proof -
  have step: "row_step P term page_index idx base (results, fetched) w =
      (Inr (Continue (results @ [dict_merge base details], fetched + 1)), w4)"
    using assms(2-5)
    by (simp add: row_step_def io_try_else_def io_bind_def io_ret_def Let_def)
  with assms(1) have eq: "rows_loop P term max_records page_index ((idx, base) # rest) (results, fetched) w =
           rows_loop P term max_records page_index rest
             (results @ [dict_merge base details], fetched + 1) w4"
    by (simp add: io_bind_def)
  show ?thesis
  proof (intro conjI allI impI)
    show "rows_loop P term max_records page_index ((idx, base) # rest) (results, fetched) w =
           rows_loop P term max_records page_index rest
             (results @ [dict_merge base details], fetched + 1) w4" by (rule eq)
  next
    fix r w'
    assume "rows_loop P term max_records page_index ((idx, base) # rest) (results, fetched) w = (Inr r, w')"
    with eq have "rows_loop P term max_records page_index rest
             (results @ [dict_merge base details], fetched + 1) w4 = (Inr r, w')" by simp
    from rows_loop_results_extend [OF this]
    show "\<exists>more. fst (exit_state r) = results @ [dict_merge base details] @ more" by simp
  qed
qed


lemma acme_back_fails_steps:
  "detail_open acme_back_fails 0 [] = (Inr (), [Nth (Css ''table tbody tr'') 0])"
  "io_try (collect_detail_fields acme_back_fails) (\<lambda>e. io_ret []) [Nth (Css ''table tbody tr'') 0] =
     (Inr [(''Entity Number'', ''C1234567'')], [Nth (Css ''table tbody tr'') 0])"
  "return_to_list acme_back_fails [Nth (Css ''table tbody tr'') 0] =
     (Inl TimeoutError, [Nth (Css ''table tbody tr'') 0])"
  "resync acme_back_fails ''acme'' 1 [Nth (Css ''table tbody tr'') 0] =
     (Inr (), [Nth (Css ''table tbody tr'') 0, First (ByRole ''button'' (Some ''search|find|submit''))])"
  by code_simp+

text \<open>C10, witness: going back fails after the first of two rows, the resync succeeds.\<close>

theorem resync_continues_same_page_witness:
  "(0::int) < 5 \<and>
   detail_open acme_back_fails 0 [] = (Inr (), [Nth (Css ''table tbody tr'') 0]) \<and>
   return_to_list acme_back_fails [Nth (Css ''table tbody tr'') 0] =
     (Inl TimeoutError, [Nth (Css ''table tbody tr'') 0]) \<and>
   resync acme_back_fails ''acme'' 1 [Nth (Css ''table tbody tr'') 0] =
     (Inr (), [Nth (Css ''table tbody tr'') 0, First (ByRole ''button'' (Some ''search|find|submit''))]) \<and>
   rows_loop acme_back_fails ''acme'' 5 1
       [(0, [(''Name'', ''ACME LLC'')]), (1, [(''Name'', ''BETA INC'')])] ([], 0) [] =
     rows_loop acme_back_fails ''acme'' 5 1 [(1, [(''Name'', ''BETA INC'')])]
       ([dict_merge [(''Name'', ''ACME LLC'')] [(''Entity Number'', ''C1234567'')]], 0 + 1)
       [Nth (Css ''table tbody tr'') 0, First (ByRole ''button'' (Some ''search|find|submit''))]"
proof -
  note s = acme_back_fails_steps
  have lt: "(0::int) < 5" by simp
  have "rows_loop acme_back_fails ''acme'' 5 1
       ((0, [(''Name'', ''ACME LLC'')]) # [(1, [(''Name'', ''BETA INC'')])]) ([], 0) [] =
     rows_loop acme_back_fails ''acme'' 5 1 [(1, [(''Name'', ''BETA INC'')])]
       ([] @ [dict_merge [(''Name'', ''ACME LLC'')] [(''Entity Number'', ''C1234567'')]], 0 + 1)
       [Nth (Css ''table tbody tr'') 0, First (ByRole ''button'' (Some ''search|find|submit''))]"
    using resync_continues_same_page [OF lt s(1) s(2) s(3) s(4)] by (rule conjunct1)
  then have "rows_loop acme_back_fails ''acme'' 5 1
       [(0, [(''Name'', ''ACME LLC'')]), (1, [(''Name'', ''BETA INC'')])] ([], 0) [] =
     rows_loop acme_back_fails ''acme'' 5 1 [(1, [(''Name'', ''BETA INC'')])]
       ([dict_merge [(''Name'', ''ACME LLC'')] [(''Entity Number'', ''C1234567'')]], 0 + 1)
       [Nth (Css ''table tbody tr'') 0, First (ByRole ''button'' (Some ''search|find|submit''))]"
    by (simp only: append_Nil)
  with lt s(1) s(3) s(4) show ?thesis by (intro conjI)
qed

text \<open>
  C2. For a record cap that is not negative: every row step raises \<^verbatim>\<open>fetched\<close> by
  exactly one and appends exactly one record; across the loop over the rows of a page and
  across the loop over the pages \<^verbatim>\<open>fetched\<close> never decreases, stays at most the cap,
  and counts the records appended; so a session returns at most \<^verbatim>\<open>max_records\<close>
  records.
\<close>

theorem fetched_monotone_bounded:
  assumes "0 \<le> max_records"
  shows
    "(\<forall>r w'. row_step P term page_index idx base (results, fetched) w = (Inr r, w') \<longrightarrow>
        snd (exit_state r) = fetched + 1 \<and>
        length (fst (exit_state r)) = length results + 1) \<and>
     (fetched \<le> max_records \<longrightarrow>
       (\<forall>r w'. rows_loop P term max_records page_index rows (results, fetched) w = (Inr r, w') \<longrightarrow>
          fetched \<le> snd (exit_state r) \<and> snd (exit_state r) \<le> max_records \<and>
          int (length (fst (exit_state r))) = int (length results) + (snd (exit_state r) - fetched))) \<and>
     (fetched \<le> max_records \<longrightarrow>
       (\<forall>s' w'. pages_loop P term max_records table_headers (results, fetched, page_index) w
                   = (Inr s', w') \<longrightarrow>
          fetched \<le> fst (snd s') \<and> fst (snd s') \<le> max_records \<and>
          int (length (fst s')) = int (length results) + (fst (snd s') - fetched))) \<and>
     (\<forall>res hdrs. fst (scrape_businesses P term max_records w) = Inr (res, hdrs) \<longrightarrow>
        int (length res) \<le> max_records)"
proof (intro conjI allI impI)
  fix r w'
  assume "row_step P term page_index idx base (results, fetched) w = (Inr r, w')"
  from row_step_state [OF this]
  show "snd (exit_state r) = fetched + 1" "length (fst (exit_state r)) = length results + 1"
    by auto
next
  fix r w'
  assume le: "fetched \<le> max_records"
    and l: "rows_loop P term max_records page_index rows (results, fetched) w = (Inr r, w')"
  from rows_loop_fetched_mono [OF l] show "fetched \<le> snd (exit_state r)" by simp
  from rows_loop_inv [OF l] le show "snd (exit_state r) \<le> max_records" by simp
  from rows_loop_inv [OF l] le
  show "int (length (fst (exit_state r))) = int (length results) + (snd (exit_state r) - fetched)"
    by simp
next
  fix s' w'
  assume le: "fetched \<le> max_records"
    and l: "pages_loop P term max_records table_headers (results, fetched, page_index) w = (Inr s', w')"
  from pages_loop_inv [OF l] le
  show "fetched \<le> fst (snd s')" "fst (snd s') \<le> max_records"
    "int (length (fst s')) = int (length results) + (fst (snd s') - fetched)"
    by simp_all
next
  fix res hdrs
  assume "fst (scrape_businesses P term max_records w) = Inr (res, hdrs)"
  then obtain w' where "scrape_businesses P term max_records w = (Inr (res, hdrs), w')"
    by (cases "scrape_businesses P term max_records w") auto
  then obtain w1 w2 where "scrape_body P term max_records w1 = (Inr (res, hdrs), w2)"
    by (auto simp: scrape_businesses_def split: prod.splits sum.splits)
  then obtain s' v v' where "pages_loop P term max_records hdrs ([], 0, 1) v = (Inr s', v')"
    and "res = fst s'"
    by (rule scrape_body_pages)
  with pages_loop_inv [of P "term" max_records hdrs "([], 0, 1)" v s' v'] assms
  show "int (length res) \<le> max_records" by simp
qed

lemma acme_scrape_one:
  "fst (scrape_businesses acme ''acme'' 1 []) =
     Inr ([[(''Name'', ''ACME LLC''), (''Status'', ''Active''), (''Entity Number'', ''C1234567'')]],
           [''Name'', ''Status''])"
  by code_simp

text \<open>
  C2, witness: a session on the example page with a cap of one returns one record.
\<close>

theorem fetched_monotone_bounded_witness:
  "(0::int) \<le> 1 \<and>
   fst (scrape_businesses acme ''acme'' 1 []) =
     Inr ([[(''Name'', ''ACME LLC''), (''Status'', ''Active''), (''Entity Number'', ''C1234567'')]],
           [''Name'', ''Status'']) \<and>
   int (length [[(''Name'', ''ACME LLC''), (''Status'', ''Active''), (''Entity Number'', ''C1234567'')]]) \<le> 1"
proof -
  have c: "(0::int) \<le> 1" by simp
  from fetched_monotone_bounded [OF c, where P = acme and w = "[]"]
    acme_scrape_one
  have "int (length [[(''Name'', ''ACME LLC''), (''Status'', ''Active''), (''Entity Number'', ''C1234567'')]]) \<le> 1"
    by blast
  with c acme_scrape_one show ?thesis by (intro conjI)
qed








text \<open>
  C8, the code at a failing input. On the example page the table extractor drops the
  blank first row, so the row it returns at index 0 was read from the cells of body row
  1; \<^verbatim>\<open>_open_row_detail\<close> at index 0 clicks body row 0, whose cells are blank.
\<close>

theorem open_row_detail_index_mismatch:
  "fst (extract_table_rows acme []) = Inr [[''ACME LLC'', ''Active'']] \<and>
   fst (io_mapM (\<lambda>j. safe_text acme (Nth (Sub (Nth (Css ''table tbody tr'') 1) ''td'') j)) [0, 1] [])
     = Inr [''ACME LLC'', ''Active''] \<and>
   fst (io_mapM (\<lambda>j. safe_text acme (Nth (Sub (Nth (Css ''table tbody tr'') 0) ''td'') j)) [0, 1] [])
     = Inr ['''', ''''] \<and>
   open_row_detail acme 0 [] = (Inr True, [Nth (Css ''table tbody tr'') 0])"
  by code_simp

text \<open>
  C5. Whenever the detail collector returns, what it returns is the result of the first
  block, in the order term and definition pairs, table rows, labels, that gives at least
  one pair from the empty dictionary (the result of the label block when the first two
  give none), and the calls of later blocks are not made, so pairs of two blocks are never
  combined. The first block leaves the dictionary as it is, without reading any text,
  when there is no term or when the definitions are fewer than the terms.
\<close>

theorem collect_first_strategy:
  "(\<forall>d w'. collect_detail_fields P w = (Inr d, w') \<longrightarrow>
      (\<exists>d1 w1. dt_dd_block P [] w = (Inr d1, w1) \<and>
         (if d1 \<noteq> [] then d = d1 \<and> w' = w1
          else (\<exists>d2 w2. table_block P [] w1 = (Inr d2, w2) \<and>
                 (if d2 \<noteq> [] then d = d2 \<and> w' = w2
                  else label_block P [] w2 = (Inr d, w')))))) \<and>
   (\<forall>n m n' w1 w2 w3.
      count P (Css ''dt'') w = (Inr n, w1) \<and> 0 < n \<and>
      count P (Css ''dd'') w1 = (Inr m, w2) \<and>
      count P (Css ''dt'') w2 = (Inr n', w3) \<and> m < n' \<longrightarrow>
      dt_dd_block P data w = (Inr data, w3)) \<and>
   (\<forall>w1. count P (Css ''dt'') w = (Inr 0, w1) \<longrightarrow> dt_dd_block P data w = (Inr data, w1))"
proof (intro conjI allI impI)
  fix d w'
  assume "collect_detail_fields P w = (Inr d, w')"
  then obtain d1 w1 x w2 y w3 where
    a: "dt_dd_block P [] w = (Inr d1, w1)" and
    b: "(if d1 = [] then table_block P d1 else io_ret d1) w1 = (Inr x, w2)" and
    c: "(if x = [] then label_block P x else io_ret x) w2 = (Inr y, w3)" and
    e: "io_ret y w3 = (Inr d, w')"
    unfolding collect_detail_fields_def by (elim io_bind_InrE) blast
  from e have yd: "y = d" "w3 = w'" by (auto dest: io_ret_InrD)
  show "\<exists>d1 w1. dt_dd_block P [] w = (Inr d1, w1) \<and>
         (if d1 \<noteq> [] then d = d1 \<and> w' = w1
          else (\<exists>d2 w2. table_block P [] w1 = (Inr d2, w2) \<and>
                 (if d2 \<noteq> [] then d = d2 \<and> w' = w2
                  else label_block P [] w2 = (Inr d, w'))))"
  proof (cases "d1 = []")
    case False
    with b have "x = d1" "w2 = w1" by (auto dest: io_ret_InrD)
    with False c yd have "d = d1" "w' = w1" by (auto dest: io_ret_InrD)
    with a False show ?thesis by auto
  next
    case True
    with b have t: "table_block P [] w1 = (Inr x, w2)" by simp
    show ?thesis
    proof (cases "x = []")
      case False
      with c yd have "d = x" "w' = w2" by (auto dest: io_ret_InrD)
      with a True t False show ?thesis by auto
    next
      case xe: True
      with c yd have "label_block P [] w2 = (Inr d, w')" by simp
      with a True t xe show ?thesis by auto
    qed
  qed
next
  fix n m n' w1 w2 w3
  assume "count P (Css ''dt'') w = (Inr n, w1) \<and> 0 < n \<and>
      count P (Css ''dd'') w1 = (Inr m, w2) \<and>
      count P (Css ''dt'') w2 = (Inr n', w3) \<and> m < n'"
  then show "dt_dd_block P data w = (Inr data, w3)"
    by (simp add: dt_dd_block_def io_bind_def io_ret_def)
next
  fix w1
  assume "count P (Css ''dt'') w = (Inr 0, w1)"
  then show "dt_dd_block P data w = (Inr data, w1)"
    by (simp add: dt_dd_block_def io_bind_def io_ret_def)
qed

lemma detail_table_eval:
  "collect_detail_fields detail_table [] = (Inr [(''Status'', ''Active'')], [])"
  "table_block detail_table [] [] = (Inr [(''Status'', ''Active'')], [])"
  "count detail_table (Css ''dt'') [] = (Inr 2, [])"
  "count detail_table (Css ''dd'') [] = (Inr 1, [])"
  by code_simp+

text \<open>
  C5, witness: two terms and one definition, so the first block is not applied and the
  pairs come from the table rows.
\<close>

theorem collect_first_strategy_witness:
  "collect_detail_fields detail_table [] = (Inr [(''Status'', ''Active'')], []) \<and>
   count detail_table (Css ''dt'') [] = (Inr 2, []) \<and> (0::nat) < 2 \<and>
   count detail_table (Css ''dd'') [] = (Inr 1, []) \<and> (1::nat) < 2 \<and>
   dt_dd_block detail_table [] [] = (Inr [], []) \<and>
   (\<exists>d1 w1. dt_dd_block detail_table [] [] = (Inr d1, w1) \<and>
      (if d1 \<noteq> [] then [(''Status'', ''Active'')] = d1 \<and> [] = w1
       else (\<exists>d2 w2. table_block detail_table [] w1 = (Inr d2, w2) \<and>
              (if d2 \<noteq> [] then [(''Status'', ''Active'')] = d2 \<and> [] = w2
               else label_block detail_table [] w2 = (Inr [(''Status'', ''Active'')], [])))))"
proof -
  note e = detail_table_eval
  from collect_first_strategy [of detail_table "[]" "[]"] e(1)
  have "\<exists>d1 w1. dt_dd_block detail_table [] [] = (Inr d1, w1) \<and>
      (if d1 \<noteq> [] then [(''Status'', ''Active'')] = d1 \<and> [] = w1
       else (\<exists>d2 w2. table_block detail_table [] w1 = (Inr d2, w2) \<and>
              (if d2 \<noteq> [] then [(''Status'', ''Active'')] = d2 \<and> [] = w2
               else label_block detail_table [] w2 = (Inr [(''Status'', ''Active'')], []))))"
    by blast
  moreover have "count detail_table (Css ''dt'') [] = (Inr 2, []) \<and> (0::nat) < 2 \<and>
      count detail_table (Css ''dd'') [] = (Inr 1, []) \<and>
      count detail_table (Css ''dt'') [] = (Inr 2, []) \<and> (1::nat) < 2"
    using e by simp
  with collect_first_strategy [of detail_table "[]" "[]"]
  have "dt_dd_block detail_table [] [] = (Inr [], [])" by blast
  ultimately show ?thesis using e by simp
qed


end
